theory Spec2Isabelle
  imports Main "HOL-Library.Multiset"
begin

section \<open>The bounded binary heap of ruby/command-t/heap.c\<close>

text \<open>
  The heap stores opaque \<^verbatim>\<open>void *\<close> handles in a preallocated array and orders them
  with a caller-supplied three-way comparator. A handle is modelled by its address, the
  null pointer being address 0.

  The C code indexes with \<^verbatim>\<open>long\<close>. Every index, the count and the capacity stay in
  \<open>[0, capacity]\<close> on a heap that satisfies \<open>0 \<le> count \<le> capacity\<close>, and \<open>2 * index + 2\<close>
  stays far below the range of a 64-bit \<^verbatim>\<open>long\<close> for any array that can be allocated, so
  they are natural numbers here. The two places where the C code leaves the naturals are
  \<^verbatim>\<open>(index - 1) / 2\<close> at index 0 and \<^verbatim>\<open>(count - 1) / 2\<close> at count 0: C division truncates
  towards zero, so both are \<open>-1 / 2 = 0\<close>, which is also what truncating subtraction on
  \<open>nat\<close> gives.
\<close>

type_synonym handle = nat

definition NULL :: handle where
  "NULL = 0"

text \<open>
  Modelled from the spec: \<^verbatim>\<open>heap_t\<close> is declared in heap.h, which is not among the sources.
  The fields are the four that heap.c reads and writes: \<^verbatim>\<open>count\<close>, \<^verbatim>\<open>capacity\<close>,
  \<^verbatim>\<open>entries\<close> (the backing store, of length capacity) and \<^verbatim>\<open>comparator\<close>.
\<close>

record heap =
  count :: nat
  capacity :: nat
  entries :: "handle list"
  comparator :: "handle \<Rightarrow> handle \<Rightarrow> int"

definition HEAP_PARENT :: "nat \<Rightarrow> nat" where
  "HEAP_PARENT index = (index - 1) div 2"

definition HEAP_LEFT :: "nat \<Rightarrow> nat" where
  "HEAP_LEFT index = 2 * index + 1"

definition HEAP_RIGHT :: "nat \<Rightarrow> nat" where
  "HEAP_RIGHT index = 2 * index + 2"

text \<open>
  \<^verbatim>\<open>heap_new\<close> calls \<^verbatim>\<open>malloc\<close> twice. The outcome of the first call is the flag
  \<open>heap_ok\<close>; the outcome of the second is \<open>block\<close>: \<open>None\<close> when it fails, otherwise the
  uninitialised contents of the array it returns.
\<close>

definition heap_new ::
  "nat \<Rightarrow> (handle \<Rightarrow> handle \<Rightarrow> int) \<Rightarrow> bool \<Rightarrow> handle list option \<Rightarrow> heap option" where
  "heap_new cap cmp heap_ok block =
     (if \<not> heap_ok then None
      else case block of
             None \<Rightarrow> None
           | Some es \<Rightarrow> Some \<lparr>count = 0, capacity = cap, entries = es, comparator = cmp\<rparr>)"

definition heap_compare :: "heap \<Rightarrow> nat \<Rightarrow> nat \<Rightarrow> int" where
  "heap_compare h a_idx b_idx = comparator h (entries h ! a_idx) (entries h ! b_idx)"

definition heap_property :: "heap \<Rightarrow> nat \<Rightarrow> nat \<Rightarrow> bool" where
  "heap_property h parent_idx child_idx \<longleftrightarrow> heap_compare h parent_idx child_idx = - 1"

definition heap_swap :: "heap \<Rightarrow> nat \<Rightarrow> nat \<Rightarrow> heap" where
  "heap_swap h a b =
     (let tmp = entries h ! a;
          h1 = h\<lparr>entries := (entries h)[a := entries h ! b]\<rparr>
      in h1\<lparr>entries := (entries h1)[b := tmp]\<rparr>)"

text \<open>
  The bubbling loop of \<^verbatim>\<open>heap_insert\<close>. The C variable \<^verbatim>\<open>parent_idx\<close> is
  \<^verbatim>\<open>HEAP_PARENT(idx)\<close> at every test of the loop condition.
\<close>

function heap_insert_loop :: "heap \<Rightarrow> nat \<Rightarrow> heap" where
  "heap_insert_loop h idx =
     (if idx \<noteq> 0 \<and> \<not> heap_property h (HEAP_PARENT idx) idx
      then heap_insert_loop (heap_swap h idx (HEAP_PARENT idx)) (HEAP_PARENT idx)
      else h)"
  by pat_completeness auto
termination
  by (relation "measure (\<lambda>(h, idx). idx)") (auto simp: HEAP_PARENT_def)

declare heap_insert_loop.simps [simp del]

definition heap_insert :: "heap \<Rightarrow> handle \<Rightarrow> heap" where
  "heap_insert h v =
     (if count h = capacity h then h
      else let idx = count h;
               h1 = h\<lparr>entries := (entries h)[idx := v]\<rparr>;
               h2 = h1\<lparr>count := count h1 + 1\<rparr>
           in heap_insert_loop h2 idx)"

text \<open>
  \<^verbatim>\<open>heap_heapify\<close>, in two parts: the initialiser of the local variable
  \<^verbatim>\<open>smallest_idx\<close>, then the test and the recursive call. The source line that picks
  between the two children reads
  \<^verbatim>\<open>heap_compare(heap, left_idx, right_idx == -1) ? left_idx : right_idx\<close>: the third
  argument of \<^verbatim>\<open>heap_compare\<close> is the value of the test \<^verbatim>\<open>right_idx == -1\<close> (0 or 1), and
  the comparator's result is used as the condition, so any non-zero result picks the left
  child.
\<close>

definition heapify_smallest_idx :: "heap \<Rightarrow> nat \<Rightarrow> nat" where
  "heapify_smallest_idx h idx =
     (let left_idx = HEAP_LEFT idx;
          right_idx = HEAP_RIGHT idx
      in if right_idx < count h
         then (if heap_compare h left_idx (of_bool (int right_idx = - 1)) \<noteq> 0
               then left_idx else right_idx)
         else if left_idx < count h then left_idx
         else idx)"

function heap_heapify :: "heap \<Rightarrow> nat \<Rightarrow> heap" where
  "heap_heapify h idx =
     (let smallest_idx = heapify_smallest_idx h idx
      in if smallest_idx \<noteq> idx \<and> \<not> heap_property h idx smallest_idx
         then heap_heapify (heap_swap h idx smallest_idx) smallest_idx
         else h)"
  by pat_completeness auto
termination
  by (relation "measure (\<lambda>(h, idx). count h - idx)")
     (auto simp: heapify_smallest_idx_def heap_swap_def Let_def HEAP_LEFT_def HEAP_RIGHT_def
           split: if_splits)

declare heap_heapify.simps [simp del]

text \<open>The first loop of \<^verbatim>\<open>heap_bulk_insert\<close>, over the \<open>limit\<close> leading values.\<close>

definition bulk_store :: "heap \<Rightarrow> handle \<Rightarrow> heap" where
  "bulk_store h v =
     (let h1 = h\<lparr>entries := (entries h)[count h := v]\<rparr>
      in h1\<lparr>count := count h1 + 1\<rparr>)"

text \<open>The second loop: \<^verbatim>\<open>for (i = ...; i >= 0; i--) heap_heapify(heap, i)\<close>.\<close>

fun heapify_down_from :: "heap \<Rightarrow> nat \<Rightarrow> heap" where
  "heapify_down_from h 0 = heap_heapify h 0"
| "heapify_down_from h (Suc i) = heapify_down_from (heap_heapify h (Suc i)) i"

definition heap_bulk_insert :: "heap \<Rightarrow> handle list \<Rightarrow> heap" where
  "heap_bulk_insert h vs =
     (let available = capacity h - count h;
          limit = (if available > length vs then length vs else available);
          h1 = foldl bulk_store h (take limit vs)
      in heapify_down_from h1 ((count h1 - 1) div 2))"

definition heap_extract :: "heap \<Rightarrow> handle \<times> heap" where
  "heap_extract h =
     (if count h \<noteq> 0
      then let extracted = entries h ! 0;
               h1 = h\<lparr>entries := (entries h)[0 := entries h ! (count h - 1)]\<rparr>;
               h2 = h1\<lparr>count := count h1 - 1\<rparr>
           in (extracted, heap_heapify h2 0)
      else (NULL, h))"

subsection \<open>Sequences of calls\<close>

text \<open>\<open>n\<close> successive calls of \<^verbatim>\<open>heap_extract\<close>: the values returned, in order, and the heap left.\<close>

fun extract_n :: "nat \<Rightarrow> heap \<Rightarrow> handle list \<times> heap" where
  "extract_n 0 h = ([], h)"
| "extract_n (Suc n) h =
     (let (x, h1) = heap_extract h;
          (xs, h2) = extract_n n h1
      in (x # xs, h2))"

text \<open>Inserting the values of a list one at a time, first value first.\<close>

definition insert_all :: "heap \<Rightarrow> handle list \<Rightarrow> heap" where
  "insert_all h vs = foldl heap_insert h vs"

datatype heap_call = Insert handle | Bulk_Insert "handle list" | Extract

fun call :: "heap \<Rightarrow> heap_call \<Rightarrow> heap" where
  "call h (Insert v) = heap_insert h v"
| "call h (Bulk_Insert vs) = heap_bulk_insert h vs"
| "call h Extract = snd (heap_extract h)"

definition calls :: "heap \<Rightarrow> heap_call list \<Rightarrow> heap" where
  "calls h cs = foldl call h cs"

subsection \<open>Vocabulary of the properties\<close>

text \<open>The data-model invariant: the count is within the capacity, the store has capacity slots.\<close>

definition wf_heap :: "heap \<Rightarrow> bool" where
  "wf_heap h \<longleftrightarrow> count h \<le> capacity h \<and> length (entries h) = capacity h"

text \<open>The meaningful part of the store, \<^verbatim>\<open>entries[0..count)\<close>.\<close>

definition stored :: "heap \<Rightarrow> handle list" where
  "stored h = take (count h) (entries h)"

text \<open>The number of values \<^verbatim>\<open>heap_bulk_insert\<close> is said to accept:
  \<open>min(len(values), capacity - count)\<close>.\<close>

definition bulk_limit :: "heap \<Rightarrow> handle list \<Rightarrow> nat" where
  "bulk_limit h vs = min (length vs) (capacity h - count h)"

text \<open>Two comparators for concrete heaps: by address, and by address divided by ten
  (so that distinct handles can rank equal).\<close>

definition cmp_addr :: "handle \<Rightarrow> handle \<Rightarrow> int" where
  "cmp_addr a b = (if a < b then - 1 else if a = b then 0 else 1)"

definition cmp_tens :: "handle \<Rightarrow> handle \<Rightarrow> int" where
  "cmp_tens a b = cmp_addr (a div 10) (b div 10)"

text \<open>The heap \<^verbatim>\<open>heap_new\<close> returns when both allocations succeed and the fresh array
  happens to hold null handles.\<close>

definition empty_heap :: "nat \<Rightarrow> (handle \<Rightarrow> handle \<Rightarrow> int) \<Rightarrow> heap" where
  "empty_heap cap cmp = \<lparr>count = 0, capacity = cap, entries = replicate cap NULL, comparator = cmp\<rparr>"

text \<open>The strict form of the heap property that \<^verbatim>\<open>heap_property\<close> tests, at every
  non-root index below the count.\<close>

definition strict_heap :: "heap \<Rightarrow> bool" where
  "strict_heap h \<longleftrightarrow> list_all (\<lambda>i. heap_property h (HEAP_PARENT i) i) [1..<count h]"

text \<open>A heap of three handles that all rank equal under \<open>cmp_tens\<close>.\<close>

definition tied_heap :: heap where
  "tied_heap = \<lparr>count = 3, capacity = 3, entries = [10, 11, 12], comparator = cmp_tens\<rparr>"

section \<open>Frame lemmas\<close>

lemma count_heap_swap [simp]: "count (heap_swap h a b) = count h"
  by (simp add: heap_swap_def Let_def)

lemma capacity_heap_swap [simp]: "capacity (heap_swap h a b) = capacity h"
  by (simp add: heap_swap_def Let_def)

lemma comparator_heap_swap [simp]: "comparator (heap_swap h a b) = comparator h"
  by (simp add: heap_swap_def Let_def)

lemma entries_heap_swap:
  "entries (heap_swap h a b) = (entries h)[a := entries h ! b, b := entries h ! a]"
  by (simp add: heap_swap_def Let_def)

lemma length_entries_heap_swap [simp]:
  "length (entries (heap_swap h a b)) = length (entries h)"
  by (simp add: entries_heap_swap)

lemma heapify_smallest_idx_range:
  "heapify_smallest_idx h idx \<noteq> idx \<Longrightarrow>
     idx < heapify_smallest_idx h idx \<and> heapify_smallest_idx h idx < count h"
  by (auto simp: heapify_smallest_idx_def Let_def HEAP_LEFT_def HEAP_RIGHT_def split: if_splits)

lemma heap_heapify_preserves:
  assumes swap: "\<And>h a b. a < b \<Longrightarrow> b < count h \<Longrightarrow> P h \<Longrightarrow> P (heap_swap h a b)"
  shows "P h \<Longrightarrow> P (heap_heapify h idx)"
proof (induction h idx rule: heap_heapify.induct)
  case (1 h idx)
  let ?s = "heapify_smallest_idx h idx"
  show ?case
  proof (cases "?s \<noteq> idx \<and> \<not> heap_property h idx ?s")
    case True
    then have "idx < ?s" "?s < count h"
      using heapify_smallest_idx_range [of h idx] by auto
    then have "P (heap_swap h idx ?s)"
      using swap "1.prems" by blast
    then have "P (heap_heapify (heap_swap h idx ?s) ?s)"
      using "1.IH" True by blast
    then show ?thesis
      using True by (subst heap_heapify.simps) (simp add: Let_def)
  next
    case False
    then show ?thesis
      using "1.prems" by (subst heap_heapify.simps) (auto simp add: Let_def)
  qed
qed

lemma heap_insert_loop_preserves:
  assumes swap: "\<And>h a b. b < a \<Longrightarrow> a < n \<Longrightarrow> P h \<Longrightarrow> P (heap_swap h a b)"
  shows "P h \<Longrightarrow> idx < n \<Longrightarrow> P (heap_insert_loop h idx)"
proof (induction h idx rule: heap_insert_loop.induct)
  case (1 h idx)
  show ?case
  proof (cases "idx \<noteq> 0 \<and> \<not> heap_property h (HEAP_PARENT idx) idx")
    case True
    then have lt: "HEAP_PARENT idx < idx"
      by (auto simp: HEAP_PARENT_def)
    then have "P (heap_swap h idx (HEAP_PARENT idx))"
      using swap "1.prems" by blast
    then have "P (heap_insert_loop (heap_swap h idx (HEAP_PARENT idx)) (HEAP_PARENT idx))"
      using "1.IH" True lt "1.prems" by simp
    then show ?thesis
      using True by (subst heap_insert_loop.simps) simp
  next
    case False
    then show ?thesis
      using "1.prems" by (subst heap_insert_loop.simps) auto
  qed
qed

lemma stored_heap_swap:
  assumes "a < count h" "b < count h" "count h \<le> length (entries h)"
  shows "mset (stored (heap_swap h a b)) = mset (stored h)"
proof -
  let ?xs = "take (count h) (entries h)"
  have len: "a < length ?xs" "b < length ?xs"
    using assms by simp_all
  have "stored (heap_swap h a b) = ?xs[a := ?xs ! b, b := ?xs ! a]"
    using assms by (simp add: stored_def entries_heap_swap take_update_swap)
  moreover have "mset (?xs[a := ?xs ! b, b := ?xs ! a]) = mset ?xs"
    by (rule mset_swap [OF len(2) len(1)])
  ultimately show ?thesis
    by (simp only: stored_def)
qed

lemma count_heap_heapify [simp]: "count (heap_heapify h idx) = count h"
  by (rule heap_heapify_preserves [where P = "\<lambda>h'. count h' = count h"]) simp_all

lemma capacity_heap_heapify [simp]: "capacity (heap_heapify h idx) = capacity h"
  by (rule heap_heapify_preserves [where P = "\<lambda>h'. capacity h' = capacity h"]) simp_all

lemma comparator_heap_heapify [simp]: "comparator (heap_heapify h idx) = comparator h"
  by (rule heap_heapify_preserves [where P = "\<lambda>h'. comparator h' = comparator h"]) simp_all

lemma length_entries_heap_heapify [simp]:
  "length (entries (heap_heapify h idx)) = length (entries h)"
  by (rule heap_heapify_preserves [where P = "\<lambda>h'. length (entries h') = length (entries h)"])
     simp_all

lemma mset_stored_heap_heapify:
  assumes "count h \<le> length (entries h)"
  shows "mset (stored (heap_heapify h idx)) = mset (stored h)"
proof -
  let ?P = "\<lambda>h'. count h' \<le> length (entries h') \<and> mset (stored h') = mset (stored h)"
  have "?P (heap_heapify h idx)"
    by (rule heap_heapify_preserves [where P = ?P]) (use assms in \<open>simp_all add: stored_heap_swap\<close>)
  then show ?thesis by simp
qed

lemma count_heap_insert_loop [simp]: "count (heap_insert_loop h idx) = count h"
  by (rule heap_insert_loop_preserves [where P = "\<lambda>h'. count h' = count h" and n = "Suc idx"])
     simp_all

lemma capacity_heap_insert_loop [simp]: "capacity (heap_insert_loop h idx) = capacity h"
  by (rule heap_insert_loop_preserves [where P = "\<lambda>h'. capacity h' = capacity h" and n = "Suc idx"])
     simp_all

lemma comparator_heap_insert_loop [simp]: "comparator (heap_insert_loop h idx) = comparator h"
  by (rule heap_insert_loop_preserves
        [where P = "\<lambda>h'. comparator h' = comparator h" and n = "Suc idx"])
     simp_all

lemma length_entries_heap_insert_loop [simp]:
  "length (entries (heap_insert_loop h idx)) = length (entries h)"
  by (rule heap_insert_loop_preserves
        [where P = "\<lambda>h'. length (entries h') = length (entries h)" and n = "Suc idx"])
     simp_all

lemma mset_stored_heap_insert_loop:
  assumes "idx < count h" "count h \<le> length (entries h)"
  shows "mset (stored (heap_insert_loop h idx)) = mset (stored h)"
proof -
  let ?P = "\<lambda>h'. count h' = count h \<and> count h' \<le> length (entries h')
              \<and> mset (stored h') = mset (stored h)"
  have "?P (heap_insert_loop h idx)"
    by (rule heap_insert_loop_preserves [where P = ?P and n = "count h"])
       (use assms in \<open>simp_all add: stored_heap_swap\<close>)
  then show ?thesis by simp
qed

subsection \<open>heap_insert\<close>

lemma heap_insert_full: "count h = capacity h \<Longrightarrow> heap_insert h v = h"
  by (simp add: heap_insert_def)

lemma count_heap_insert:
  "count (heap_insert h v) = (if count h = capacity h then count h else count h + 1)"
  by (simp add: heap_insert_def Let_def)

lemma capacity_heap_insert [simp]: "capacity (heap_insert h v) = capacity h"
  by (simp add: heap_insert_def Let_def)

lemma comparator_heap_insert [simp]: "comparator (heap_insert h v) = comparator h"
  by (simp add: heap_insert_def Let_def)

lemma length_entries_heap_insert [simp]:
  "length (entries (heap_insert h v)) = length (entries h)"
  by (simp add: heap_insert_def Let_def)

lemma mset_stored_heap_insert:
  assumes "wf_heap h" "count h \<noteq> capacity h"
  shows "mset (stored (heap_insert h v)) = add_mset v (mset (stored h))"
proof -
  let ?h2 = "h\<lparr>entries := (entries h)[count h := v], count := count h + 1\<rparr>"
  have lt: "count h < length (entries h)"
    using assms by (simp add: wf_heap_def)
  have "stored ?h2 = stored h @ [v]"
    using lt by (simp add: stored_def take_Suc_conv_app_nth)
  moreover have "mset (stored (heap_insert_loop ?h2 (count h))) = mset (stored ?h2)"
    using lt by (intro mset_stored_heap_insert_loop) simp_all
  ultimately show ?thesis
    using assms(2) by (simp add: heap_insert_def Let_def)
qed

lemma wf_heap_insert: "wf_heap h \<Longrightarrow> wf_heap (heap_insert h v)"
  by (auto simp: wf_heap_def count_heap_insert)

subsection \<open>heap_extract\<close>

lemma heap_extract_empty_eq: "count h = 0 \<Longrightarrow> heap_extract h = (NULL, h)"
  by (simp add: heap_extract_def)

lemma fst_heap_extract: "count h \<noteq> 0 \<Longrightarrow> fst (heap_extract h) = entries h ! 0"
  by (simp add: heap_extract_def Let_def)

lemma count_heap_extract [simp]: "count (snd (heap_extract h)) = count h - 1"
  by (simp add: heap_extract_def Let_def)

lemma capacity_heap_extract [simp]: "capacity (snd (heap_extract h)) = capacity h"
  by (simp add: heap_extract_def Let_def)

lemma comparator_heap_extract [simp]: "comparator (snd (heap_extract h)) = comparator h"
  by (simp add: heap_extract_def Let_def)

lemma length_entries_heap_extract [simp]:
  "length (entries (snd (heap_extract h))) = length (entries h)"
  by (simp add: heap_extract_def Let_def)

lemma mset_take_move_last:
  assumes "0 < n" "n \<le> length es"
  shows "mset (take (n - 1) (es[0 := es ! (n - 1)])) = mset (take n es) - {#es ! 0#}"
proof (cases "n - 1")
  case 0
  then have "n = 1" using assms by simp
  then show ?thesis
    using assms by (cases es) simp_all
next
  case (Suc k)
  let ?m = "n - 1"
  let ?xs = "take ?m es"
  have m: "0 < ?m" "?m < length es" "n = Suc ?m"
    using Suc assms by simp_all
  have xs0: "?xs ! 0 = es ! 0" "0 < length ?xs"
    using m by simp_all
  then have mem: "es ! 0 \<in># mset ?xs"
    by (metis nth_mem_mset)
  have "mset (take ?m (es[0 := es ! ?m])) = mset (?xs[0 := es ! ?m])"
    by (simp add: take_update_swap)
  also have "\<dots> = add_mset (es ! ?m) (mset ?xs - {#es ! 0#})"
    using xs0 by (simp add: mset_update)
  also have "\<dots> = add_mset (es ! ?m) (mset ?xs) - {#es ! 0#}"
    using mem by simp
  also have "add_mset (es ! ?m) (mset ?xs) = mset (take n es)"
    using m by (metis mset.simps(2) mset_append take_Suc_conv_app_nth union_mset_add_mset_right
        add.right_neutral mset.simps(1))
  finally show ?thesis .
qed

lemma mset_stored_heap_extract:
  assumes "wf_heap h" "count h \<noteq> 0"
  shows "mset (stored (snd (heap_extract h))) = mset (stored h) - {#entries h ! 0#}"
proof -
  let ?h2 = "h\<lparr>entries := (entries h)[0 := entries h ! (count h - 1)], count := count h - 1\<rparr>"
  have le: "count h \<le> length (entries h)" "0 < count h"
    using assms by (simp_all add: wf_heap_def)
  have "mset (stored (heap_heapify ?h2 0)) = mset (stored ?h2)"
    using le by (intro mset_stored_heap_heapify) simp
  moreover have "mset (stored ?h2) = mset (stored h) - {#entries h ! 0#}"
    using mset_take_move_last [OF le(2) le(1)] by (simp add: stored_def)
  ultimately show ?thesis
    using assms(2) by (simp add: heap_extract_def Let_def)
qed

lemma wf_heap_extract: "wf_heap h \<Longrightarrow> wf_heap (snd (heap_extract h))"
  by (auto simp: wf_heap_def)

subsection \<open>heap_bulk_insert\<close>

lemma count_heapify_down_from [simp]: "count (heapify_down_from h i) = count h"
  by (induction i arbitrary: h) simp_all

lemma capacity_heapify_down_from [simp]: "capacity (heapify_down_from h i) = capacity h"
  by (induction i arbitrary: h) simp_all

lemma comparator_heapify_down_from [simp]: "comparator (heapify_down_from h i) = comparator h"
  by (induction i arbitrary: h) simp_all

lemma length_entries_heapify_down_from [simp]:
  "length (entries (heapify_down_from h i)) = length (entries h)"
  by (induction i arbitrary: h) simp_all

lemma mset_stored_heapify_down_from:
  "count h \<le> length (entries h) \<Longrightarrow> mset (stored (heapify_down_from h i)) = mset (stored h)"
  by (induction i arbitrary: h) (simp_all add: mset_stored_heap_heapify)

lemma foldl_bulk_store:
  assumes "count h + length ws \<le> length (entries h)"
  shows "count (foldl bulk_store h ws) = count h + length ws
       \<and> capacity (foldl bulk_store h ws) = capacity h
       \<and> comparator (foldl bulk_store h ws) = comparator h
       \<and> length (entries (foldl bulk_store h ws)) = length (entries h)
       \<and> stored (foldl bulk_store h ws) = stored h @ ws"
  using assms
proof (induction ws arbitrary: h)
  case Nil
  then show ?case by simp
next
  case (Cons w ws)
  let ?h1 = "bulk_store h w"
  have lt: "count h < length (entries h)"
    using Cons.prems by simp
  have h1: "count ?h1 = count h + 1" "capacity ?h1 = capacity h"
    "comparator ?h1 = comparator h" "length (entries ?h1) = length (entries h)"
    by (simp_all add: bulk_store_def Let_def)
  have st: "stored ?h1 = stored h @ [w]"
    using lt by (simp add: stored_def bulk_store_def Let_def take_Suc_conv_app_nth)
  have "count ?h1 + length ws \<le> length (entries ?h1)"
    using Cons.prems h1 by simp
  from Cons.IH [OF this] show ?case
    using h1 st by simp
qed

lemma heap_bulk_insert_eq:
  "heap_bulk_insert h vs =
     heapify_down_from (foldl bulk_store h (take (bulk_limit h vs) vs))
       ((count (foldl bulk_store h (take (bulk_limit h vs) vs)) - 1) div 2)"
proof -
  have "(if capacity h - count h > length vs then length vs else capacity h - count h)
          = bulk_limit h vs"
    by (simp add: bulk_limit_def min_def)
  then show ?thesis
    by (simp add: heap_bulk_insert_def Let_def)
qed

lemma bulk_copy_facts:
  fixes vs :: "handle list"
  assumes "wf_heap h"
  defines "h1 \<equiv> foldl bulk_store h (take (bulk_limit h vs) vs)"
  shows "count h1 = count h + bulk_limit h vs" "capacity h1 = capacity h"
    "comparator h1 = comparator h" "length (entries h1) = length (entries h)"
    "stored h1 = stored h @ take (bulk_limit h vs) vs"
proof -
  have "count h + length (take (bulk_limit h vs) vs) \<le> length (entries h)"
    using assms(1) by (auto simp: wf_heap_def bulk_limit_def)
  from foldl_bulk_store [OF this]
  show "count h1 = count h + bulk_limit h vs" "capacity h1 = capacity h"
    "comparator h1 = comparator h" "length (entries h1) = length (entries h)"
    "stored h1 = stored h @ take (bulk_limit h vs) vs"
    by (simp_all add: h1_def bulk_limit_def)
qed

lemma heap_bulk_insert_facts:
  assumes "wf_heap h"
  shows "count (heap_bulk_insert h vs) = count h + bulk_limit h vs"
    "capacity (heap_bulk_insert h vs) = capacity h"
    "comparator (heap_bulk_insert h vs) = comparator h"
    "length (entries (heap_bulk_insert h vs)) = length (entries h)"
    "mset (stored (heap_bulk_insert h vs)) = mset (stored h) + mset (take (bulk_limit h vs) vs)"
proof -
  note c = bulk_copy_facts [OF assms, of vs]
  show "count (heap_bulk_insert h vs) = count h + bulk_limit h vs"
    "capacity (heap_bulk_insert h vs) = capacity h"
    "comparator (heap_bulk_insert h vs) = comparator h"
    "length (entries (heap_bulk_insert h vs)) = length (entries h)"
    using c by (simp_all add: heap_bulk_insert_eq)
  have "count h + bulk_limit h vs \<le> length (entries h)"
    using assms by (auto simp: wf_heap_def bulk_limit_def)
  then show "mset (stored (heap_bulk_insert h vs))
      = mset (stored h) + mset (take (bulk_limit h vs) vs)"
    using c by (simp add: heap_bulk_insert_eq mset_stored_heapify_down_from)
qed

lemma wf_heap_bulk_insert: "wf_heap h \<Longrightarrow> wf_heap (heap_bulk_insert h vs)"
  using heap_bulk_insert_facts [of h vs] by (auto simp: wf_heap_def bulk_limit_def)

lemma wf_heap_call: "wf_heap h \<Longrightarrow> wf_heap (call h c)"
  by (cases c) (simp_all add: wf_heap_insert wf_heap_bulk_insert wf_heap_extract)

lemma wf_heap_calls: "wf_heap h \<Longrightarrow> wf_heap (calls h cs)"
  unfolding calls_def by (induction cs arbitrary: h) (simp_all add: wf_heap_call)

lemma capacity_call: "wf_heap h \<Longrightarrow> capacity (call h c) = capacity h"
  by (cases c) (simp_all add: heap_bulk_insert_facts)

lemma capacity_calls: "wf_heap h \<Longrightarrow> capacity (calls h cs) = capacity h"
  unfolding calls_def
  by (induction cs arbitrary: h) (simp_all add: wf_heap_call capacity_call)

subsection \<open>Runs of extractions\<close>

lemma heap_new_empty_heap:
  "heap_new cap cmp True (Some (replicate cap NULL)) = Some (empty_heap cap cmp)"
  by (simp add: heap_new_def empty_heap_def)

lemma extract_n_Suc:
  "extract_n (Suc n) h =
     (fst (heap_extract h) # fst (extract_n n (snd (heap_extract h))),
      snd (extract_n n (snd (heap_extract h))))"
  by (simp add: Let_def case_prod_unfold)

lemma count_extract_n: "count (snd (extract_n n h)) = count h - n"
  by (induction n arbitrary: h) (simp_all add: extract_n_Suc del: extract_n.simps(2))

lemma extract_n_empty: "count h = 0 \<Longrightarrow> extract_n n h = (replicate n NULL, h)"
  by (induction n) (simp_all add: extract_n_Suc heap_extract_empty_eq del: extract_n.simps(2))

subsection \<open>Heaps that are already strictly ordered\<close>

lemma heapify_smallest_idx_parent:
  "heapify_smallest_idx h idx \<noteq> idx \<Longrightarrow> HEAP_PARENT (heapify_smallest_idx h idx) = idx"
  by (auto simp: heapify_smallest_idx_def Let_def HEAP_LEFT_def HEAP_RIGHT_def HEAP_PARENT_def
      split: if_splits)

lemma strict_heap_heapify:
  assumes "strict_heap h"
  shows "heap_heapify h idx = h"
proof -
  let ?s = "heapify_smallest_idx h idx"
  have "heap_property h idx ?s" if ne: "?s \<noteq> idx"
  proof -
    have "0 < ?s" "?s < count h"
      using heapify_smallest_idx_range [OF ne] by simp_all
    then have "heap_property h (HEAP_PARENT ?s) ?s"
      using assms by (simp add: strict_heap_def list_all_iff)
    then show ?thesis
      using heapify_smallest_idx_parent [OF ne] by simp
  qed
  then show ?thesis
    by (subst heap_heapify.simps) (auto simp: Let_def)
qed

lemma strict_heap_heapify_down_from: "strict_heap h \<Longrightarrow> heapify_down_from h i = h"
  by (induction i) (simp_all add: strict_heap_heapify)

lemma bulk_limit_full: "count h = capacity h \<Longrightarrow> bulk_limit h vs = 0"
  by (simp add: bulk_limit_def)

subsection \<open>Runs of insertions and extractions as multisets\<close>

lemma insert_all_facts:
  assumes "wf_heap h" "length vs \<le> capacity h - count h"
  shows "wf_heap (insert_all h vs) \<and> count (insert_all h vs) = count h + length vs
       \<and> mset (stored (insert_all h vs)) = mset (stored h) + mset vs"
  using assms unfolding insert_all_def
proof (induction vs arbitrary: h)
  case Nil
  then show ?case by simp
next
  case (Cons v vs)
  let ?h1 = "heap_insert h v"
  have ne: "count h \<noteq> capacity h"
    using Cons.prems by auto
  have h1: "wf_heap ?h1" "count ?h1 = count h + 1" "capacity ?h1 = capacity h"
    "mset (stored ?h1) = add_mset v (mset (stored h))"
    using Cons.prems(1) ne
    by (simp_all add: wf_heap_insert count_heap_insert mset_stored_heap_insert)
  have "length vs \<le> capacity ?h1 - count ?h1"
    using Cons.prems(2) h1 by simp
  from Cons.IH [OF h1(1) this] show ?case
    using h1 by simp
qed

lemma mset_extract_n:
  assumes "wf_heap h" "n = count h"
  shows "mset (fst (extract_n n h)) = mset (stored h)"
  using assms
proof (induction n arbitrary: h)
  case 0
  then show ?case by (simp add: stored_def)
next
  case (Suc n)
  let ?h1 = "snd (heap_extract h)"
  have ne: "count h \<noteq> 0" and le: "count h \<le> length (entries h)"
    using Suc.prems by (simp_all add: wf_heap_def)
  have "stored h ! 0 = entries h ! 0" "0 < length (stored h)"
    using ne le by (simp_all add: stored_def)
  then have mem: "entries h ! 0 \<in># mset (stored h)"
    by (metis nth_mem_mset)
  have "mset (fst (extract_n n ?h1)) = mset (stored ?h1)"
    using Suc.prems by (intro Suc.IH) (simp_all add: wf_heap_extract)
  then show ?case
    using mem ne Suc.prems(1)
    by (simp add: extract_n_Suc fst_heap_extract mset_stored_heap_extract
        del: extract_n.simps(2))
qed

lemma length_extract_n: "length (fst (extract_n n h)) = n"
  by (induction n arbitrary: h) (simp_all add: extract_n_Suc del: extract_n.simps(2))

subsection \<open>Slots the two sifting loops leave alone\<close>

lemma heap_heapify_nth_below:
  "j < idx \<Longrightarrow> entries (heap_heapify h idx) ! j = entries h ! j"
proof (induction h idx rule: heap_heapify.induct)
  case (1 h idx)
  let ?s = "heapify_smallest_idx h idx"
  show ?case
  proof (cases "?s \<noteq> idx \<and> \<not> heap_property h idx ?s")
    case True
    then have lt: "idx < ?s"
      using heapify_smallest_idx_range [of h idx] by auto
    have "entries (heap_heapify (heap_swap h idx ?s) ?s) ! j = entries (heap_swap h idx ?s) ! j"
      using "1.IH" True lt "1.prems" by simp
    also have "\<dots> = entries h ! j"
      using lt "1.prems" by (simp add: entries_heap_swap)
    finally show ?thesis
      using True by (subst heap_heapify.simps) (simp add: Let_def)
  next
    case False
    then show ?thesis
      by (subst heap_heapify.simps) (auto simp add: Let_def)
  qed
qed

lemma heap_insert_loop_nth_above:
  "idx < j \<Longrightarrow> entries (heap_insert_loop h idx) ! j = entries h ! j"
proof (induction h idx rule: heap_insert_loop.induct)
  case (1 h idx)
  let ?p = "HEAP_PARENT idx"
  show ?case
  proof (cases "idx \<noteq> 0 \<and> \<not> heap_property h ?p idx")
    case True
    then have lt: "?p < idx"
      by (auto simp: HEAP_PARENT_def)
    have "entries (heap_insert_loop (heap_swap h idx ?p) ?p) ! j = entries (heap_swap h idx ?p) ! j"
      using "1.IH" True lt "1.prems" by simp
    also have "\<dots> = entries h ! j"
      using lt "1.prems" by (simp add: entries_heap_swap)
    finally show ?thesis
      using True by (subst heap_insert_loop.simps) simp
  next
    case False
    then show ?thesis
      by (subst heap_insert_loop.simps) auto
  qed
qed

lemma heap_insert_loop_final:
  "idx < length (entries h) \<Longrightarrow>
     \<exists>k\<le>idx. entries (heap_insert_loop h idx) ! k = entries h ! idx
            \<and> (k = 0 \<or> heap_property (heap_insert_loop h idx) (HEAP_PARENT k) k)"
proof (induction h idx rule: heap_insert_loop.induct)
  case (1 h idx)
  let ?p = "HEAP_PARENT idx"
  show ?case
  proof (cases "idx \<noteq> 0 \<and> \<not> heap_property h ?p idx")
    case True
    then have lt: "?p < idx"
      by (auto simp: HEAP_PARENT_def)
    let ?h1 = "heap_swap h idx ?p"
    have eq: "heap_insert_loop h idx = heap_insert_loop ?h1 ?p"
      using True by (subst heap_insert_loop.simps) simp
    have "?p < length (entries ?h1)"
      using lt "1.prems" by simp
    with "1.IH" True obtain k where k: "k \<le> ?p"
      "entries (heap_insert_loop ?h1 ?p) ! k = entries ?h1 ! ?p"
      "k = 0 \<or> heap_property (heap_insert_loop ?h1 ?p) (HEAP_PARENT k) k"
      by blast
    have "entries ?h1 ! ?p = entries h ! idx"
      using lt "1.prems" by (simp add: entries_heap_swap)
    with k lt eq show ?thesis
      by (intro exI [of _ k]) simp
  next
    case False
    then have "heap_insert_loop h idx = h"
      by (subst heap_insert_loop.simps) auto
    with False show ?thesis
      by (intro exI [of _ idx]) auto
  qed
qed

section \<open>The heap property after a sequence of calls\<close>

text \<open>
  Claim C1, evaluated at a failing input. On a heap of capacity 4 ordered by address,
  inserting 1, 5, 2, 6 and extracting once leaves \<^verbatim>\<open>entries[0..3)\<close> as 5, 6, 2: the
  handle at index 2 ranks below its parent at index 0 (the comparator returns +1), and
  the root is not a minimum of the stored handles. \<^verbatim>\<open>heap_heapify\<close> at index 0 picked
  the left child 5 for the root 6, because it compared the left child with
  \<^verbatim>\<open>entries[0]\<close> and not with the right child 2.
\<close>

theorem heap_property_violated_after_extract:
  "heap_new 4 cmp_addr True (Some (replicate 4 NULL)) = Some (empty_heap 4 cmp_addr)
   \<and> stored (calls (empty_heap 4 cmp_addr) [Insert 1, Insert 5, Insert 2, Insert 6])
        = [1, 5, 2, 6]
   \<and> stored (calls (empty_heap 4 cmp_addr) [Insert 1, Insert 5, Insert 2, Insert 6, Extract])
        = [5, 6, 2]
   \<and> heap_compare
         (calls (empty_heap 4 cmp_addr) [Insert 1, Insert 5, Insert 2, Insert 6, Extract])
         (HEAP_PARENT 2) 2 = 1"
proof -
  have "stored (calls (empty_heap 4 cmp_addr) [Insert 1, Insert 5, Insert 2, Insert 6])
        = [1, 5, 2, 6]
   \<and> stored (calls (empty_heap 4 cmp_addr) [Insert 1, Insert 5, Insert 2, Insert 6, Extract])
        = [5, 6, 2]
   \<and> heap_compare
         (calls (empty_heap 4 cmp_addr) [Insert 1, Insert 5, Insert 2, Insert 6, Extract])
         (HEAP_PARENT 2) 2 = 1"
    by code_simp
  then show ?thesis
    by (simp add: heap_new_empty_heap)
qed

section \<open>The order of extraction\<close>

text \<open>
  Claim C2, evaluated at a failing input. Inserting 1, 5, 2, 6 one at a time into an empty
  heap of capacity 4 ordered by address and extracting four times returns 1, 5, 2, 6:
  5 comes out before 2, although 5 ranks above 2.
\<close>

theorem heap_extract_order_violated:
  "fst (extract_n 4 (insert_all (empty_heap 4 cmp_addr) [1, 5, 2, 6])) = [1, 5, 2, 6]
   \<and> cmp_addr 5 2 = 1"
  by code_simp

section \<open>One step of heapify with two children\<close>

text \<open>
  Claim C3 as stated fails on ties. In the heap \<open>tied_heap\<close> the root ranks equal to both
  children, so no child ranks strictly below it and the root is already smallest; yet
  \<^verbatim>\<open>heap_heapify\<close> at index 0 swaps the root with the right child. The same state is
  what the first loop of \<^verbatim>\<open>heap_bulk_insert\<close> builds from an empty heap.
\<close>

theorem heap_heapify_two_children_counterexample:
  "foldl bulk_store (empty_heap 3 cmp_tens) [10, 11, 12] = tied_heap
   \<and> 2 * 0 + 2 < count tied_heap
   \<and> comparator tied_heap (entries tied_heap ! HEAP_LEFT 0) (entries tied_heap ! 0) = 0
   \<and> comparator tied_heap (entries tied_heap ! HEAP_RIGHT 0) (entries tied_heap ! 0) = 0
   \<and> stored tied_heap = [10, 11, 12]
   \<and> stored (heap_heapify tied_heap 0) = [12, 11, 10]
   \<and> stored (heap_heapify tied_heap 0) \<noteq> stored tied_heap"
proof -
  have "foldl bulk_store (empty_heap 3 cmp_tens) [10, 11, 12] = tied_heap"
    by (simp add: bulk_store_def empty_heap_def tied_heap_def NULL_def Let_def numeral_3_eq_3)
  moreover have "2 * 0 + 2 < count tied_heap
   \<and> comparator tied_heap (entries tied_heap ! HEAP_LEFT 0) (entries tied_heap ! 0) = 0
   \<and> comparator tied_heap (entries tied_heap ! HEAP_RIGHT 0) (entries tied_heap ! 0) = 0
   \<and> stored tied_heap = [10, 11, 12]
   \<and> stored (heap_heapify tied_heap 0) = [12, 11, 10]
   \<and> stored (heap_heapify tied_heap 0) \<noteq> stored tied_heap"
    by code_simp
  ultimately show ?thesis
    by blast
qed

text \<open>
  Claim C3, amended. On a heap within its capacity, at an index with both children in
  range, \<^verbatim>\<open>heap_heapify\<close> picks one of the two children \<open>c\<close>. When the element at the index
  compares strictly below that child (the comparator returns -1) the heap is left as it
  is. Otherwise, so also on a tie, the two are swapped and \<^verbatim>\<open>heap_heapify\<close> continues at
  the child's position; the slot at the index then holds the child's old element for good.
  Which of the two children is picked is left open here.
\<close>

theorem heap_heapify_two_children:
  assumes "wf_heap h" "2 * idx + 2 < count h"
  shows "\<exists>c. (c = 2 * idx + 1 \<or> c = 2 * idx + 2)
           \<and> (comparator h (entries h ! idx) (entries h ! c) = - 1 \<longrightarrow> heap_heapify h idx = h)
           \<and> (comparator h (entries h ! idx) (entries h ! c) \<noteq> - 1 \<longrightarrow>
                heap_heapify h idx = heap_heapify (heap_swap h idx c) c
                \<and> entries (heap_heapify h idx) ! idx = entries h ! c)"
proof -
  let ?c = "heapify_smallest_idx h idx"
  have c: "?c = 2 * idx + 1 \<or> ?c = 2 * idx + 2"
    using assms(2) by (simp add: heapify_smallest_idx_def Let_def HEAP_LEFT_def HEAP_RIGHT_def)
  then have ne: "?c \<noteq> idx" and lt: "idx < ?c"
    by auto
  have len: "?c < length (entries h)"
    using c assms by (auto simp: wf_heap_def)
  have stop: "heap_heapify h idx = h" if "comparator h (entries h ! idx) (entries h ! ?c) = - 1"
    using that by (subst heap_heapify.simps) (simp add: Let_def heap_property_def heap_compare_def)
  have swap: "heap_heapify h idx = heap_heapify (heap_swap h idx ?c) ?c
      \<and> entries (heap_heapify h idx) ! idx = entries h ! ?c"
    if "comparator h (entries h ! idx) (entries h ! ?c) \<noteq> - 1"
  proof -
    have eq: "heap_heapify h idx = heap_heapify (heap_swap h idx ?c) ?c"
      using that ne
      by (subst heap_heapify.simps) (simp add: Let_def heap_property_def heap_compare_def)
    have "entries (heap_heapify (heap_swap h idx ?c) ?c) ! idx = entries (heap_swap h idx ?c) ! idx"
      using lt by (rule heap_heapify_nth_below)
    also have "\<dots> = entries h ! ?c"
      using lt len by (simp add: entries_heap_swap)
    finally show ?thesis
      using eq by simp
  qed
  from c stop swap show ?thesis
    by blast
qed

theorem heap_heapify_two_children_witness:
  "wf_heap tied_heap \<and> 2 * 0 + 2 < count tied_heap
   \<and> (\<exists>c. (c = 2 * 0 + 1 \<or> c = 2 * 0 + 2)
         \<and> (comparator tied_heap (entries tied_heap ! 0) (entries tied_heap ! c) = - 1
              \<longrightarrow> heap_heapify tied_heap 0 = tied_heap)
         \<and> (comparator tied_heap (entries tied_heap ! 0) (entries tied_heap ! c) \<noteq> - 1
              \<longrightarrow> heap_heapify tied_heap 0 = heap_heapify (heap_swap tied_heap 0 c) c
                \<and> entries (heap_heapify tied_heap 0) ! 0 = entries tied_heap ! c))"
proof -
  have w: "wf_heap tied_heap"
    by code_simp
  have l: "2 * 0 + 2 < count tied_heap"
    by code_simp
  from heap_heapify_two_children [OF w l] w l show ?thesis
    by blast
qed

section \<open>The bubbling loop of insert\<close>

text \<open>
  Claim C4 as stated fails on ties. Into a heap of capacity 2 that holds the handle 10,
  insert the handle 11, which ranks equal to 10 under \<open>cmp_tens\<close>: the comparator returns
  0 for parent and new element, and the two are swapped all the same, so the new element
  ends at the root.
\<close>

theorem heap_insert_sift_up_counterexample:
  "count (heap_insert (empty_heap 2 cmp_tens) 10) = 1
   \<and> capacity (heap_insert (empty_heap 2 cmp_tens) 10) = 2
   \<and> stored (heap_insert (empty_heap 2 cmp_tens) 10) = [10]
   \<and> comparator (heap_insert (empty_heap 2 cmp_tens) 10)
        (entries (heap_insert (empty_heap 2 cmp_tens) 10) ! HEAP_PARENT 1) 11 = 0
   \<and> stored (heap_insert (heap_insert (empty_heap 2 cmp_tens) 10) 11) = [11, 10]
   \<and> entries (heap_insert (heap_insert (empty_heap 2 cmp_tens) 10) 11) ! 1 \<noteq> 11"
  by code_simp

text \<open>
  Claim C4, amended. With room left, \<^verbatim>\<open>heap_insert\<close> stores the value at slot \<open>count\<close>,
  increments the count and runs the bubbling loop from that slot. The loop, at any heap
  \<open>g\<close> and index \<open>i\<close>, swaps with the parent and continues there exactly when \<open>i\<close> is not
  the root and the comparator does not return -1 for parent and child (so also when it
  returns 0), and stops otherwise. Hence the new value ends at a slot that is the root or
  whose parent compares strictly below it; when the first parent does not compare
  strictly below the value, that parent is moved down into slot \<open>count\<close>; when it does, or
  the heap was empty, nothing else moves.
\<close>

theorem heap_insert_sift_up:
  assumes "wf_heap h" "count h \<noteq> capacity h"
  shows "count (heap_insert h v) = count h + 1
       \<and> heap_insert h v
           = heap_insert_loop (h\<lparr>entries := (entries h)[count h := v], count := count h + 1\<rparr>)
               (count h)
       \<and> (i \<noteq> 0 \<and> comparator g (entries g ! HEAP_PARENT i) (entries g ! i) \<noteq> - 1 \<longrightarrow>
            heap_insert_loop g i = heap_insert_loop (heap_swap g i (HEAP_PARENT i)) (HEAP_PARENT i))
       \<and> (i = 0 \<or> comparator g (entries g ! HEAP_PARENT i) (entries g ! i) = - 1 \<longrightarrow>
            heap_insert_loop g i = g)
       \<and> (\<exists>k\<le>count h. entries (heap_insert h v) ! k = v
             \<and> (k = 0 \<or> comparator h (entries (heap_insert h v) ! HEAP_PARENT k) v = - 1))
       \<and> (count h \<noteq> 0 \<and> comparator h (entries h ! HEAP_PARENT (count h)) v \<noteq> - 1 \<longrightarrow>
            entries (heap_insert h v) ! count h = entries h ! HEAP_PARENT (count h))
       \<and> (count h = 0 \<or> comparator h (entries h ! HEAP_PARENT (count h)) v = - 1 \<longrightarrow>
            entries (heap_insert h v) = (entries h)[count h := v])"
proof -
  let ?n = "count h"
  let ?p = "HEAP_PARENT ?n"
  let ?h2 = "h\<lparr>entries := (entries h)[?n := v], count := ?n + 1\<rparr>"
  have lt: "?n < length (entries h)"
    using assms by (simp add: wf_heap_def)
  have ins: "heap_insert h v = heap_insert_loop ?h2 ?n"
    using assms(2) by (simp add: heap_insert_def Let_def)
  have nv: "entries ?h2 ! ?n = v"
    using lt by simp
  have pv: "entries ?h2 ! ?p = entries h ! ?p" if "?n \<noteq> 0"
    using that by (simp add: HEAP_PARENT_def)
  have hp: "heap_property ?h2 ?p ?n \<longleftrightarrow> comparator h (entries h ! ?p) v = - 1" if "?n \<noteq> 0"
    using nv pv [OF that] by (simp add: heap_property_def heap_compare_def)
  have c1: "count (heap_insert h v) = ?n + 1"
    using assms(2) by (simp add: count_heap_insert)
  have s1: "heap_insert_loop g i = heap_insert_loop (heap_swap g i (HEAP_PARENT i)) (HEAP_PARENT i)"
    if "i \<noteq> 0 \<and> comparator g (entries g ! HEAP_PARENT i) (entries g ! i) \<noteq> - 1"
    using that
    by (subst heap_insert_loop.simps) (simp add: heap_property_def heap_compare_def)
  have s2: "heap_insert_loop g i = g"
    if "i = 0 \<or> comparator g (entries g ! HEAP_PARENT i) (entries g ! i) = - 1"
    using that
    by (subst heap_insert_loop.simps) (auto simp: heap_property_def heap_compare_def)
  have c2: "\<exists>k\<le>?n. entries (heap_insert h v) ! k = v
             \<and> (k = 0 \<or> comparator h (entries (heap_insert h v) ! HEAP_PARENT k) v = - 1)"
  proof -
    have "?n < length (entries ?h2)"
      using lt by simp
    from heap_insert_loop_final [OF this] obtain k where k: "k \<le> ?n"
      "entries (heap_insert_loop ?h2 ?n) ! k = v"
      "k = 0 \<or> heap_property (heap_insert_loop ?h2 ?n) (HEAP_PARENT k) k"
      using nv by auto
    then show ?thesis
      unfolding ins by (intro exI [of _ k]) (auto simp: heap_property_def heap_compare_def)
  qed
  have c3: "entries (heap_insert h v) ! ?n = entries h ! ?p"
    if "?n \<noteq> 0 \<and> comparator h (entries h ! ?p) v \<noteq> - 1"
  proof -
    have plt: "?p < ?n"
      using that by (auto simp: HEAP_PARENT_def)
    have "heap_insert_loop ?h2 ?n = heap_insert_loop (heap_swap ?h2 ?n ?p) ?p"
      using that hp by (subst heap_insert_loop.simps) simp
    then have "entries (heap_insert h v) ! ?n = entries (heap_swap ?h2 ?n ?p) ! ?n"
      using plt by (simp add: ins heap_insert_loop_nth_above)
    also have "\<dots> = entries h ! ?p"
      using plt lt by (simp add: entries_heap_swap)
    finally show ?thesis .
  qed
  have c4: "entries (heap_insert h v) = (entries h)[?n := v]"
    if "?n = 0 \<or> comparator h (entries h ! ?p) v = - 1"
  proof -
    have "heap_insert_loop ?h2 ?n = ?h2"
      using that hp by (subst heap_insert_loop.simps) auto
    then show ?thesis
      by (simp add: ins)
  qed
  from c1 ins s1 s2 c2 c3 c4 show ?thesis
    by blast
qed

theorem heap_insert_sift_up_witness:
  "wf_heap (heap_insert (empty_heap 2 cmp_tens) 10)
   \<and> count (heap_insert (empty_heap 2 cmp_tens) 10)
        \<noteq> capacity (heap_insert (empty_heap 2 cmp_tens) 10)
   \<and> count (heap_insert (empty_heap 2 cmp_tens) 10) \<noteq> 0
   \<and> comparator (heap_insert (empty_heap 2 cmp_tens) 10)
        (entries (heap_insert (empty_heap 2 cmp_tens) 10)
           ! HEAP_PARENT (count (heap_insert (empty_heap 2 cmp_tens) 10))) 11 \<noteq> - 1
   \<and> entries (heap_insert (heap_insert (empty_heap 2 cmp_tens) 10) 11)
        ! count (heap_insert (empty_heap 2 cmp_tens) 10)
      = entries (heap_insert (empty_heap 2 cmp_tens) 10)
          ! HEAP_PARENT (count (heap_insert (empty_heap 2 cmp_tens) 10))
   \<and> wf_heap (empty_heap 2 cmp_tens)
   \<and> count (empty_heap 2 cmp_tens) \<noteq> capacity (empty_heap 2 cmp_tens)
   \<and> count (empty_heap 2 cmp_tens) = 0
   \<and> entries (heap_insert (empty_heap 2 cmp_tens) 10)
      = (entries (empty_heap 2 cmp_tens))[count (empty_heap 2 cmp_tens) := 10]"
proof -
  let ?e = "empty_heap 2 cmp_tens"
  let ?h = "heap_insert ?e 10"
  have w: "wf_heap ?h" and we: "wf_heap ?e"
    by code_simp+
  have c: "count ?h \<noteq> capacity ?h" and ce: "count ?e \<noteq> capacity ?e"
    by code_simp+
  have z: "count ?h \<noteq> 0" and ze: "count ?e = 0"
    by code_simp+
  have t: "comparator ?h (entries ?h ! HEAP_PARENT (count ?h)) 11 \<noteq> - 1"
    by code_simp
  from heap_insert_sift_up [OF w c, of 11] heap_insert_sift_up [OF we ce, of 10]
    w c z t we ce ze show ?thesis
    by blast
qed

section \<open>Bulk insertion against one-at-a-time insertion\<close>

text \<open>
  Claim C5 as stated fails on ties. The handles 10, 11, 12 rank equal under \<open>cmp_tens\<close>.
  Bulk-inserted into an empty heap of capacity 3 they are extracted as 12, 11, 10;
  inserted one at a time they are extracted as 12, 10, 11.
\<close>

theorem heap_bulk_vs_sequential_counterexample:
  "length [10, 11, 12 :: nat]
     \<le> capacity (empty_heap 3 cmp_tens) - count (empty_heap 3 cmp_tens)
   \<and> fst (extract_n 3 (heap_bulk_insert (empty_heap 3 cmp_tens) [10, 11, 12])) = [12, 11, 10]
   \<and> fst (extract_n 3 (insert_all (empty_heap 3 cmp_tens) [10, 11, 12])) = [12, 10, 11]
   \<and> fst (extract_n 3 (heap_bulk_insert (empty_heap 3 cmp_tens) [10, 11, 12]))
       \<noteq> fst (extract_n 3 (insert_all (empty_heap 3 cmp_tens) [10, 11, 12]))
   \<and> count (snd (extract_n 3 (heap_bulk_insert (empty_heap 3 cmp_tens) [10, 11, 12]))) = 0
   \<and> count (snd (extract_n 3 (insert_all (empty_heap 3 cmp_tens) [10, 11, 12]))) = 0"
  by code_simp

text \<open>
  Claim C5, amended. For a heap within its capacity and a list that fits into the
  remaining capacity, bulk insertion and one-at-a-time insertion lead to the same count,
  and extracting until empty yields in both cases the same handles with the same
  multiplicities, namely the handles stored before together with the values of the list.
  The order in which they come out is not claimed to agree.
\<close>

theorem heap_bulk_vs_sequential:
  assumes "wf_heap h" "length vs \<le> capacity h - count h"
  shows "count (heap_bulk_insert h vs) = count (insert_all h vs)
       \<and> mset (fst (extract_n (count (heap_bulk_insert h vs)) (heap_bulk_insert h vs)))
           = mset (fst (extract_n (count (insert_all h vs)) (insert_all h vs)))
       \<and> mset (fst (extract_n (count (insert_all h vs)) (insert_all h vs)))
           = mset (stored h) + mset vs
       \<and> count (snd (extract_n (count (heap_bulk_insert h vs)) (heap_bulk_insert h vs))) = 0
       \<and> count (snd (extract_n (count (insert_all h vs)) (insert_all h vs))) = 0"
proof -
  have lim: "bulk_limit h vs = length vs"
    using assms(2) by (simp add: bulk_limit_def)
  note b = heap_bulk_insert_facts [OF assms(1), of vs]
  note s = insert_all_facts [OF assms]
  have "mset (fst (extract_n (count (heap_bulk_insert h vs)) (heap_bulk_insert h vs)))
      = mset (stored (heap_bulk_insert h vs))"
    using assms(1) by (intro mset_extract_n) (simp_all add: wf_heap_bulk_insert)
  moreover have "mset (fst (extract_n (count (insert_all h vs)) (insert_all h vs)))
      = mset (stored (insert_all h vs))"
    using s by (intro mset_extract_n) simp_all
  ultimately show ?thesis
    using b s lim by (simp add: count_extract_n)
qed

theorem heap_bulk_vs_sequential_witness:
  "wf_heap (empty_heap 3 cmp_tens)
   \<and> length [10, 11, 12 :: nat]
       \<le> capacity (empty_heap 3 cmp_tens) - count (empty_heap 3 cmp_tens)
   \<and> mset (fst (extract_n (count (heap_bulk_insert (empty_heap 3 cmp_tens) [10, 11, 12]))
                 (heap_bulk_insert (empty_heap 3 cmp_tens) [10, 11, 12])))
       = mset (fst (extract_n (count (insert_all (empty_heap 3 cmp_tens) [10, 11, 12]))
                 (insert_all (empty_heap 3 cmp_tens) [10, 11, 12])))"
proof -
  have w: "wf_heap (empty_heap 3 cmp_tens)"
    by code_simp
  have l: "length [10, 11, 12 :: nat]
      \<le> capacity (empty_heap 3 cmp_tens) - count (empty_heap 3 cmp_tens)"
    by code_simp
  from heap_bulk_vs_sequential [OF w l] w l show ?thesis
    by blast
qed

section \<open>Insertion into a full heap\<close>

text \<open>
  Claim C6 as stated fails for \<^verbatim>\<open>heap_bulk_insert\<close>. Inserting 10 and then 11 under
  \<open>cmp_tens\<close> fills a heap of capacity 2 with 11, 10. A bulk insert into this full heap
  copies nothing, but its second loop still runs \<^verbatim>\<open>heap_heapify\<close>, which swaps the two
  handles because the root does not compare strictly below its child.
\<close>

theorem heap_full_bulk_insert_counterexample:
  "count (insert_all (empty_heap 2 cmp_tens) [10, 11])
     = capacity (insert_all (empty_heap 2 cmp_tens) [10, 11])
   \<and> stored (insert_all (empty_heap 2 cmp_tens) [10, 11]) = [11, 10]
   \<and> stored (heap_bulk_insert (insert_all (empty_heap 2 cmp_tens) [10, 11]) [5]) = [10, 11]
   \<and> stored (heap_bulk_insert (insert_all (empty_heap 2 cmp_tens) [10, 11]) [5])
       \<noteq> stored (insert_all (empty_heap 2 cmp_tens) [10, 11])"
  by code_simp

text \<open>
  Claim C6, amended. On a full heap \<^verbatim>\<open>heap_insert\<close> changes nothing at all.
  \<^verbatim>\<open>heap_bulk_insert\<close> accepts none of the values and leaves count and capacity as they
  are; the stored handles stay the same as a multiset, and the whole heap is unchanged
  when every parent compares strictly below each of its children.
\<close>

theorem heap_full_insert:
  assumes "wf_heap h" "count h = capacity h"
  shows "heap_insert h v = h
       \<and> count (heap_bulk_insert h vs) = capacity h
       \<and> capacity (heap_bulk_insert h vs) = capacity h
       \<and> mset (stored (heap_bulk_insert h vs)) = mset (stored h)
       \<and> (strict_heap h \<longrightarrow> heap_bulk_insert h vs = h)"
proof -
  have "strict_heap h \<longrightarrow> heap_bulk_insert h vs = h"
    using assms(2) by (simp add: heap_bulk_insert_eq bulk_limit_full strict_heap_heapify_down_from)
  then show ?thesis
    using assms heap_bulk_insert_facts [OF assms(1), of vs]
    by (simp add: heap_insert_full bulk_limit_full)
qed

theorem heap_full_insert_witness:
  "wf_heap (insert_all (empty_heap 3 cmp_addr) [3, 1, 2])
   \<and> count (insert_all (empty_heap 3 cmp_addr) [3, 1, 2])
        = capacity (insert_all (empty_heap 3 cmp_addr) [3, 1, 2])
   \<and> strict_heap (insert_all (empty_heap 3 cmp_addr) [3, 1, 2])
   \<and> heap_insert (insert_all (empty_heap 3 cmp_addr) [3, 1, 2]) 0
        = insert_all (empty_heap 3 cmp_addr) [3, 1, 2]
   \<and> heap_bulk_insert (insert_all (empty_heap 3 cmp_addr) [3, 1, 2]) [0, 7]
        = insert_all (empty_heap 3 cmp_addr) [3, 1, 2]"
proof -
  let ?h = "insert_all (empty_heap 3 cmp_addr) [3, 1, 2]"
  have w: "wf_heap ?h"
    by code_simp
  have c: "count ?h = capacity ?h"
    by code_simp
  have s: "strict_heap ?h"
    by code_simp
  from heap_full_insert [OF w c, of 0 "[0, 7]"] w c s show ?thesis
    by blast
qed

section \<open>How many values a bulk insert accepts\<close>

text \<open>
  Claim C7. On a heap within its capacity, \<^verbatim>\<open>heap_bulk_insert\<close> raises the count by
  \<open>min(len(values), capacity - count)\<close>. Its first loop appends exactly that many leading
  values of the list behind the stored handles (the heap \<open>h1\<close>), the second loop only
  rearranges them, and the rest of the list is dropped. After any sequence of
  \<^verbatim>\<open>heap_insert\<close>, \<^verbatim>\<open>heap_bulk_insert\<close> and \<^verbatim>\<open>heap_extract\<close> calls the count is at most
  the capacity, which never changes.
\<close>

theorem heap_bulk_insert_count:
  assumes "wf_heap h"
  shows "count (heap_bulk_insert h vs) = count h + min (length vs) (capacity h - count h)
       \<and> (\<exists>h1. stored h1 = stored h @ take (min (length vs) (capacity h - count h)) vs
              \<and> count h1 = count h + min (length vs) (capacity h - count h)
              \<and> heap_bulk_insert h vs = heapify_down_from h1 ((count h1 - 1) div 2))
       \<and> mset (stored (heap_bulk_insert h vs))
            = mset (stored h) + mset (take (min (length vs) (capacity h - count h)) vs)
       \<and> count (calls h cs) \<le> capacity (calls h cs)
       \<and> capacity (calls h cs) = capacity h"
proof -
  let ?h1 = "foldl bulk_store h (take (bulk_limit h vs) vs)"
  have "stored ?h1 = stored h @ take (bulk_limit h vs) vs"
    "count ?h1 = count h + bulk_limit h vs"
    "heap_bulk_insert h vs = heapify_down_from ?h1 ((count ?h1 - 1) div 2)"
    using bulk_copy_facts [OF assms, of vs] by (simp_all add: heap_bulk_insert_eq)
  then have ex: "\<exists>h1. stored h1 = stored h @ take (bulk_limit h vs) vs
              \<and> count h1 = count h + bulk_limit h vs
              \<and> heap_bulk_insert h vs = heapify_down_from h1 ((count h1 - 1) div 2)"
    by blast
  have "wf_heap (calls h cs)"
    using assms by (rule wf_heap_calls)
  then have "count (calls h cs) \<le> capacity (calls h cs)"
    by (simp add: wf_heap_def)
  then show ?thesis
    using ex heap_bulk_insert_facts [OF assms, of vs] capacity_calls [OF assms, of cs]
    by (simp add: bulk_limit_def)
qed

theorem heap_bulk_insert_count_witness:
  "wf_heap (insert_all (empty_heap 3 cmp_addr) [5, 2])
   \<and> count (heap_bulk_insert (insert_all (empty_heap 3 cmp_addr) [5, 2]) [4, 9, 1])
        = count (insert_all (empty_heap 3 cmp_addr) [5, 2]) + 1
   \<and> mset (stored (heap_bulk_insert (insert_all (empty_heap 3 cmp_addr) [5, 2]) [4, 9, 1]))
        = mset (stored (insert_all (empty_heap 3 cmp_addr) [5, 2])) + {#4#}
   \<and> count (calls (insert_all (empty_heap 3 cmp_addr) [5, 2])
               [Insert 7, Bulk_Insert [8, 3], Extract, Insert 6, Insert 0]) \<le> 3"
proof -
  let ?h = "insert_all (empty_heap 3 cmp_addr) [5, 2]"
  let ?cs = "[Insert 7, Bulk_Insert [8, 3], Extract, Insert 6, Insert 0]"
  have w: "wf_heap ?h"
    by code_simp
  have c: "count ?h = 2" "capacity ?h = 3"
    by code_simp+
  from heap_bulk_insert_count [OF w, of "[4, 9, 1]" ?cs] w c show ?thesis
    by simp
qed

section \<open>Extraction from an empty heap\<close>

text \<open>
  Claim C8. On a heap with \<open>count = 0\<close>, \<^verbatim>\<open>heap_extract\<close> returns the empty signal
  \<^verbatim>\<open>NULL\<close> and leaves the heap exactly as it was, so any number of further calls return
  \<^verbatim>\<open>NULL\<close> again and the count stays 0. A heap \<open>g\<close> drained by \<open>count g\<close> extractions
  is such a heap: its count is 0 and the next extraction returns \<^verbatim>\<open>NULL\<close>.
\<close>

theorem heap_extract_empty:
  assumes "count h = 0"
  shows "heap_extract h = (NULL, h)
       \<and> extract_n n h = (replicate n NULL, h)
       \<and> count (snd (heap_extract h)) = 0
       \<and> count (snd (extract_n (count g) g)) = 0
       \<and> heap_extract (snd (extract_n (count g) g)) = (NULL, snd (extract_n (count g) g))"
  using assms by (simp add: heap_extract_empty_eq extract_n_empty count_extract_n)

theorem heap_extract_empty_witness:
  "count (empty_heap 2 cmp_addr) = 0
   \<and> heap_extract (empty_heap 2 cmp_addr) = (NULL, empty_heap 2 cmp_addr)
   \<and> extract_n 3 (empty_heap 2 cmp_addr) = (replicate 3 NULL, empty_heap 2 cmp_addr)
   \<and> count (snd (heap_extract (empty_heap 2 cmp_addr))) = 0"
proof -
  have c: "count (empty_heap 2 cmp_addr) = 0"
    by (simp add: empty_heap_def)
  from heap_extract_empty [OF c, of 3] c show ?thesis
    by blast
qed

section \<open>The stored handles as a multiset\<close>

text \<open>
  Claim C9. On a heap within its capacity, \<^verbatim>\<open>heap_insert\<close> with room left makes the
  stored handles \<^verbatim>\<open>entries[0..count)\<close> a permutation of the old ones plus the inserted
  value, and on a full heap leaves them as they are; \<^verbatim>\<open>heap_extract\<close> on a non-empty
  heap returns the old \<^verbatim>\<open>entries[0]\<close> and leaves a permutation of the old stored handles
  minus one occurrence of the returned value, and on an empty heap leaves them as they
  are; \<^verbatim>\<open>heap_bulk_insert\<close> adds exactly the accepted leading values.
\<close>

theorem heap_multiset_preservation:
  assumes "wf_heap h"
  shows "(count h \<noteq> capacity h \<longrightarrow>
            mset (stored (heap_insert h v)) = add_mset v (mset (stored h)))
       \<and> (count h = capacity h \<longrightarrow> stored (heap_insert h v) = stored h)
       \<and> (count h \<noteq> 0 \<longrightarrow>
            fst (heap_extract h) = entries h ! 0
            \<and> mset (stored (snd (heap_extract h))) = mset (stored h) - {#fst (heap_extract h)#})
       \<and> (count h = 0 \<longrightarrow> stored (snd (heap_extract h)) = stored h)
       \<and> mset (stored (heap_bulk_insert h vs))
            = mset (stored h) + mset (take (bulk_limit h vs) vs)"
  using assms
  by (simp add: mset_stored_heap_insert heap_insert_full fst_heap_extract
      mset_stored_heap_extract heap_extract_empty_eq heap_bulk_insert_facts)

theorem heap_multiset_preservation_witness:
  "wf_heap (insert_all (empty_heap 3 cmp_addr) [5, 2])
   \<and> count (insert_all (empty_heap 3 cmp_addr) [5, 2])
        \<noteq> capacity (insert_all (empty_heap 3 cmp_addr) [5, 2])
   \<and> count (insert_all (empty_heap 3 cmp_addr) [5, 2]) \<noteq> 0
   \<and> mset (stored (heap_insert (insert_all (empty_heap 3 cmp_addr) [5, 2]) 1))
        = add_mset 1 (mset (stored (insert_all (empty_heap 3 cmp_addr) [5, 2])))
   \<and> fst (heap_extract (insert_all (empty_heap 3 cmp_addr) [5, 2]))
        = entries (insert_all (empty_heap 3 cmp_addr) [5, 2]) ! 0
   \<and> mset (stored (snd (heap_extract (insert_all (empty_heap 3 cmp_addr) [5, 2]))))
        = mset (stored (insert_all (empty_heap 3 cmp_addr) [5, 2]))
            - {#fst (heap_extract (insert_all (empty_heap 3 cmp_addr) [5, 2]))#}"
proof -
  let ?h = "insert_all (empty_heap 3 cmp_addr) [5, 2]"
  have w: "wf_heap ?h"
    by code_simp
  have c: "count ?h \<noteq> capacity ?h" "count ?h \<noteq> 0"
    by code_simp+
  from heap_multiset_preservation [OF w, of 1 "[]"] w c show ?thesis
    by blast
qed

section \<open>The null handle and the empty signal\<close>

text \<open>
  Claim C10. The value \<^verbatim>\<open>heap_extract\<close> returns on an empty heap is the null handle. A
  non-empty heap whose root slot holds the null handle returns the same value, so the
  return value alone does not tell the two apart: the result equals the result of
  extracting from the same heap with its count set to 0.
\<close>

theorem heap_extract_null_ambiguity:
  assumes "count h \<noteq> 0" "entries h ! 0 = NULL"
  shows "fst (heap_extract h) = NULL
       \<and> fst (heap_extract h) = fst (heap_extract (h\<lparr>count := 0\<rparr>))"
  using assms by (simp add: fst_heap_extract heap_extract_empty_eq)

theorem heap_extract_null_ambiguity_witness:
  "count (heap_insert (empty_heap 1 cmp_addr) NULL) \<noteq> 0
   \<and> entries (heap_insert (empty_heap 1 cmp_addr) NULL) ! 0 = NULL
   \<and> fst (heap_extract (heap_insert (empty_heap 1 cmp_addr) NULL)) = NULL
   \<and> fst (heap_extract (empty_heap 1 cmp_addr)) = NULL"
proof -
  let ?h = "heap_insert (empty_heap 1 cmp_addr) NULL"
  have c: "count ?h \<noteq> 0"
    by code_simp
  have e: "entries ?h ! 0 = NULL"
    by code_simp
  have "fst (heap_extract (empty_heap 1 cmp_addr)) = NULL"
    by (simp add: heap_extract_empty_eq empty_heap_def)
  with heap_extract_null_ambiguity [OF c e] c e show ?thesis
    by blast
qed

end
